theory Spec2Isabelle
  imports Main
begin

section \<open>Data model of Graph.cpp\<close>

text \<open>
  The graph is an adjacency list: a fixed array \<open>vertices\<close> of \<open>VertexNode\<close>s and the
  number \<open>size\<close> of slots in use. Each \<open>VertexNode\<close> owns a label (\<open>data\<close>, a pointer
  that may be NULL) and the head of a NULL-terminated chain of \<open>EdgeNode\<close>s, each holding
  one \<open>adjVertex\<close>. The chain is owned by its vertex and never shared, so it is modelled
  as the list of its \<open>adjVertex\<close> values, head first; NULL is the empty list.

  C++ \<open>int\<close> values are modelled as \<open>int\<close>: the code only compares them and adds or
  subtracts one.
\<close>

record VertexNode =
  data :: "string option"
  edgeHead :: "int list"

text \<open>
  The field \<open>size\<close> of the class is called \<open>size_g\<close> here, since \<open>size\<close> is a constant
  of HOL. The array is a list; its length is the capacity of the array.
\<close>

record Graph =
  size_g :: int
  vertices :: "VertexNode list"

text \<open>
  Modelled from the spec: \<open>Graph.h\<close> is not among the sources, so the bound of the
  vertex array is taken from the header comment of \<open>Graph.cpp\<close> and from the spec
  (no more than 100 vertices), and the default \<open>VertexNode\<close> is the one every function
  of \<open>Graph.cpp\<close> relies on: no label and a NULL \<open>edgeHead\<close>.
\<close>

definition MAXVERTICES :: nat where
  "MAXVERTICES = 100"

definition defaultVertexNode :: VertexNode where
  "defaultVertexNode = \<lparr>data = None, edgeHead = []\<rparr>"

text \<open>
  Reading or writing \<open>vertices[i]\<close> outside the array has no defined behaviour in C++.
  The model makes it an error value, so that every such access is a branch of its own.
\<close>

datatype error = OutOfBounds

definition vertexAt :: "Graph \<Rightarrow> int \<Rightarrow> VertexNode option" where
  "vertexAt g i =
     (if 0 \<le> i \<and> i < int (length (vertices g)) then Some (vertices g ! nat i) else None)"

text \<open>
  \<open>Graph::Graph()\<close> sets \<open>size\<close> to zero and default-constructs every slot.
  \<open>buildGraph\<close> then reads the size and one label per vertex before it reads any edge;
  \<open>emptyGraph labels\<close> is the state at that point, for the label lines \<open>labels\<close>.
\<close>

definition Graph_default :: Graph where
  "Graph_default = \<lparr>size_g = 0, vertices = replicate MAXVERTICES defaultVertexNode\<rparr>"

definition emptyGraph :: "string list \<Rightarrow> Graph" where
  "emptyGraph labels =
     \<lparr>size_g = int (length labels),
      vertices = map (\<lambda>l. \<lparr>data = Some l, edgeHead = []\<rparr>) labels
                 @ replicate (MAXVERTICES - length labels) defaultVertexNode\<rparr>"

section \<open>Edge insertion and removal\<close>

definition areInRange :: "Graph \<Rightarrow> int \<Rightarrow> int \<Rightarrow> bool" where
  "areInRange g source destination =
     (let sourceInRange = (0 \<le> source \<and> source < size_g g);
          destInRange = (0 \<le> destination \<and> destination < size_g g)
      in sourceInRange \<and> destInRange)"

text \<open>
  \<open>insertHelper\<close> walks to the NULL at the end of the chain and links the new node
  there. It compares nothing on the way.
\<close>

fun insertHelper :: "int list \<Rightarrow> int \<Rightarrow> int list" where
  "insertHelper [] edge = [edge]"
| "insertHelper (adjVertex # nextEdge) edge = adjVertex # insertHelper nextEdge edge"

definition insertEdge :: "Graph \<Rightarrow> int \<Rightarrow> int \<Rightarrow> error + Graph" where
  "insertEdge g source destination =
     (let vertexFrom = source - 1; vertexTo = destination - 1
      in if vertexFrom \<noteq> vertexTo \<and> areInRange g vertexFrom vertexTo
         then (case vertexAt g vertexFrom of
                 None \<Rightarrow> Inl OutOfBounds
               | Some vn \<Rightarrow>
                   Inr (g\<lparr>vertices := (vertices g)
                            [nat vertexFrom := vn\<lparr>edgeHead := insertHelper (edgeHead vn) vertexTo\<rparr>]\<rparr>))
         else Inr g)"

text \<open>
  \<open>removeHelper\<close> unlinks the first node whose \<open>adjVertex\<close> is the destination and
  stops there.
\<close>

fun removeHelper :: "int list \<Rightarrow> int \<Rightarrow> int list" where
  "removeHelper [] destination = []"
| "removeHelper (adjVertex # nextEdge) destination =
     (if adjVertex = destination then nextEdge
      else adjVertex # removeHelper nextEdge destination)"

definition removeEdge :: "Graph \<Rightarrow> int \<Rightarrow> int \<Rightarrow> error + Graph" where
  "removeEdge g source destination =
     (let vertexFrom = source - 1; vertexTo = destination - 1
      in if vertexFrom \<noteq> vertexTo \<and> areInRange g vertexFrom vertexTo
         then (case vertexAt g vertexFrom of
                 None \<Rightarrow> Inl OutOfBounds
               | Some vn \<Rightarrow>
                   Inr (g\<lparr>vertices := (vertices g)
                            [nat vertexFrom := vn\<lparr>edgeHead := removeHelper (edgeHead vn) vertexTo\<rparr>]\<rparr>))
         else Inr g)"

text \<open>
  \<open>buildGraph\<close> reads the size, the label lines and then pairs \<open>src dest\<close> until a
  pair starts with 0 or the input ends, calling \<open>insertEdge\<close> on each. The file is
  given here by its content: the label lines (their number is the size read first) and
  the pairs read before the input ends. Labels beyond the array would be written outside
  it.
\<close>

fun readEdges :: "Graph \<Rightarrow> (int \<times> int) list \<Rightarrow> error + Graph" where
  "readEdges g [] = Inr g"
| "readEdges g ((src, dest) # rest) =
     (if src = 0 then Inr g
      else (case insertEdge g src dest of
              Inl e \<Rightarrow> Inl e
            | Inr g' \<Rightarrow> readEdges g' rest))"

definition buildGraph :: "string list \<Rightarrow> (int \<times> int) list \<Rightarrow> error + Graph" where
  "buildGraph labels pairs =
     (if length labels \<le> MAXVERTICES then readEdges (emptyGraph labels) pairs
      else Inl OutOfBounds)"

text \<open>The Edge Sets of the vertices in use, in index order.\<close>

definition edgeSets :: "Graph \<Rightarrow> int list list" where
  "edgeSets g = map edgeHead (take (nat (size_g g)) (vertices g))"

section \<open>Subgraph enumeration\<close>

fun isDuplicate :: "int \<Rightarrow> int list \<Rightarrow> bool" where
  "isDuplicate target [] = False"
| "isDuplicate target (it # rest) = (if target = it then True else isDuplicate target rest)"

text \<open>
  The loop of \<open>getExtension\<close> over the chain of \<open>vertices[v]\<close>, with \<open>newExtension\<close>
  as the accumulator. The comparison is with \<open>v\<close>, the first parameter of
  \<open>getExtension\<close>.
\<close>

fun getExtensionLoop :: "int \<Rightarrow> int list \<Rightarrow> int list \<Rightarrow> int list" where
  "getExtensionLoop v [] newExtension = newExtension"
| "getExtensionLoop v (adjVertex # nextEdge) newExtension =
     getExtensionLoop v nextEdge
       (if adjVertex > v
        then (if \<not> isDuplicate adjVertex newExtension then newExtension @ [adjVertex]
              else newExtension)
        else newExtension)"

definition getExtension :: "Graph \<Rightarrow> int \<Rightarrow> int list \<Rightarrow> error + int list" where
  "getExtension g v Vextension =
     (case vertexAt g v of
        None \<Rightarrow> Inl OutOfBounds
      | Some vn \<Rightarrow> Inr (getExtensionLoop v (edgeHead vn) Vextension))"

text \<open>
  \<open>Vsubgraph.size()\<close> is a \<open>size_t\<close>; in \<open>Vsubgraph.size() == k\<close> and
  \<open>Vsubgraph.size() < k\<close> the \<open>int\<close> \<open>k\<close> is converted to it, which is reduction
  modulo \<open>2 ^ 64\<close> on an LP64 platform. For \<open>0 \<le> k\<close> the conversion changes nothing.
\<close>

definition to_size_t :: "int \<Rightarrow> int" where
  "to_size_t k = k mod 2 ^ 64"

text \<open>
  \<open>extendSubgraph\<close> and its while loop. The output is the sequence of lines written to
  \<open>cout\<close>, each line the list of the numbers printed (\<open>Vsubgraph[i] + 1\<close>).
  \<open>Vsubgraph\<close> is passed by value; \<open>Vextension\<close> is passed by reference and consumed by
  \<open>pop_front\<close>, but the caller never reads it again (in the loop it is the local
  \<open>Vextension2\<close>, built afresh by \<open>getExtension\<close> in each iteration), so the callee's
  changes are not returned.
\<close>

function extendSubgraph :: "Graph \<Rightarrow> int list \<Rightarrow> int list \<Rightarrow> int \<Rightarrow> int \<Rightarrow> error + int list list"
  and extendWhile :: "Graph \<Rightarrow> int list \<Rightarrow> int list \<Rightarrow> int \<Rightarrow> int \<Rightarrow> error + int list list"
where
  "extendSubgraph g Vsubgraph Vextension v k =
     (if int (length Vsubgraph) = to_size_t k
      then Inr [map (\<lambda>x. x + 1) Vsubgraph]
      else extendWhile g Vsubgraph Vextension v k)"
| "extendWhile g Vsubgraph Vextension v k =
     (case Vextension of
        [] \<Rightarrow> Inr []
      | w # rest \<Rightarrow>
          if int (length Vsubgraph) < to_size_t k
          then (case getExtension g w rest of
                  Inl e \<Rightarrow> Inl e
                | Inr Vextension2 \<Rightarrow>
                    (case extendSubgraph g (Vsubgraph @ [w]) Vextension2 v k of
                       Inl e \<Rightarrow> Inl e
                     | Inr out1 \<Rightarrow>
                         (case extendWhile g Vsubgraph rest v k of
                            Inl e \<Rightarrow> Inl e
                          | Inr out2 \<Rightarrow> Inr (out1 @ out2))))
          else Inr [])"
  by pat_completeness auto
termination
  by (relation "measures
        [\<lambda>x. case x of Inl (g, s, e, v, k) \<Rightarrow> nat (to_size_t k - int (length s))
                     | Inr (g, s, e, v, k) \<Rightarrow> nat (to_size_t k - int (length s)),
         \<lambda>x. case x of Inl (g, s, e, v, k) \<Rightarrow> Suc (length e)
                     | Inr (g, s, e, v, k) \<Rightarrow> length e,
         \<lambda>x. case x of Inl _ \<Rightarrow> 1 | Inr _ \<Rightarrow> 0]") auto

text \<open>
  The anchor loop of \<open>enumerateSubgraph\<close>, \<open>for(int i = 0; i <= size; i++)\<close>.
  The declaration \<open>list<int> Vextension = getExtension(i, Vextension)\<close> names the list
  it is initialising; the model reads it as the empty list (the list is the fresh return
  slot of the call, set up empty before the copy constructor reads from it).
\<close>

function enumerateLoop :: "Graph \<Rightarrow> int \<Rightarrow> int \<Rightarrow> error + int list list" where
  "enumerateLoop g k i =
     (if i \<le> size_g g
      then (case getExtension g i [] of
              Inl e \<Rightarrow> Inl e
            | Inr Vextension \<Rightarrow>
                (case extendSubgraph g [i] Vextension i k of
                   Inl e \<Rightarrow> Inl e
                 | Inr out1 \<Rightarrow>
                     (case enumerateLoop g k (i + 1) of
                        Inl e \<Rightarrow> Inl e
                      | Inr out2 \<Rightarrow> Inr (out1 @ out2))))
      else Inr [])"
  by pat_completeness auto
termination
  by (relation "measure (\<lambda>(g, k, i). nat (size_g g + 1 - i))") auto

definition enumerateSubgraph :: "Graph \<Rightarrow> int \<Rightarrow> error + int list list" where
  "enumerateSubgraph g k = enumerateLoop g k 0"

section \<open>Graph states\<close>

text \<open>
  The states a \<open>Graph\<close> object goes through: the graph as \<open>buildGraph\<close> leaves it
  after the labels (no edge yet, at most \<open>MAXVERTICES\<close> vertices), followed by any
  calls of \<open>insertEdge\<close> and \<open>removeEdge\<close> that return.
\<close>

inductive reachable :: "Graph \<Rightarrow> bool" where
  start: "length labels \<le> MAXVERTICES \<Longrightarrow> reachable (emptyGraph labels)"
| insert: "reachable g \<Longrightarrow> insertEdge g source destination = Inr g' \<Longrightarrow> reachable g'"
| remove: "reachable g \<Longrightarrow> removeEdge g source destination = Inr g' \<Longrightarrow> reachable g'"

text \<open>
  A graph written out: the vertices in use with their labels and Edge Sets, in index
  order, and the remaining slots of the array as the constructor left them.
\<close>

definition graphOf :: "(string \<times> int list) list \<Rightarrow> Graph" where
  "graphOf vs =
     \<lparr>size_g = int (length vs),
      vertices = map (\<lambda>(l, es). \<lparr>data = Some l, edgeHead = es\<rparr>) vs
                 @ replicate (MAXVERTICES - length vs) defaultVertexNode\<rparr>"

text \<open>
  The invariant of the Edge Sets: the vertices in use lie within the array, and the Edge
  Set of a vertex in use holds neither the vertex itself nor anything but indices of
  vertices in use.
\<close>

definition edgeSets_valid :: "Graph \<Rightarrow> bool" where
  "edgeSets_valid g =
     (size_g g \<le> int (length (vertices g)) \<and>
      (\<forall>v \<in> {0 ..< size_g g}.
         v \<notin> set (edgeHead (vertices g ! nat v)) \<and>
         (\<forall>u \<in> set (edgeHead (vertices g ! nat v)). 0 \<le> u \<and> u < size_g g)))"

text \<open>
  What the enumeration needs of a graph: the size is not negative and not beyond the
  array, and every entry of every Edge Set is the index of a vertex in use.
\<close>

definition graph_ok :: "Graph \<Rightarrow> bool" where
  "graph_ok g =
     (0 \<le> size_g g \<and> size_g g \<le> int (length (vertices g)) \<and>
      (\<forall>vn \<in> set (vertices g). \<forall>u \<in> set (edgeHead vn). 0 \<le> u \<and> u < size_g g))"

text \<open>
  The recursive equations are unfolded one step at a time, by the lemmas of the next
  section.
\<close>

declare extendSubgraph.simps [simp del] extendWhile.simps [simp del]
  enumerateLoop.simps [simp del]

section \<open>Edge lists and the vertex array\<close>

lemma emptyGraph_Nil: "emptyGraph [] = Graph_default"
  by (simp add: emptyGraph_def Graph_default_def)

lemma insertHelper_append: "insertHelper es e = es @ [e]"
  by (induction es) simp_all

lemma removeHelper_remove1: "removeHelper es d = remove1 d es"
  by (induction es) auto

lemma vertexAt_update:
  "0 \<le> i \<Longrightarrow>
   vertexAt (g\<lparr>vertices := (vertices g)[nat i := x]\<rparr>) j =
     (if j = i \<and> i < int (length (vertices g)) then Some x else vertexAt g j)"
  by (auto simp: vertexAt_def nth_list_update)

lemma insertEdge_cases:
  assumes "insertEdge g s d = Inr g'"
  shows "g' = g \<or>
         (s \<noteq> d \<and> areInRange g (s - 1) (d - 1) \<and>
          (\<exists>vn. vertexAt g (s - 1) = Some vn \<and>
                g' = g\<lparr>vertices := (vertices g)[nat (s - 1) := vn\<lparr>edgeHead := edgeHead vn @ [d - 1]\<rparr>]\<rparr>))"
proof (cases "s - 1 \<noteq> d - 1 \<and> areInRange g (s - 1) (d - 1)")
  case False
  then have "\<not> (s - 1 \<noteq> d - 1 \<and> areInRange g (s - 1) (d - 1))" .
  with assms have "g' = g" unfolding insertEdge_def Let_def by (simp only: if_False sum.inject)
  then show ?thesis ..
next
  case True
  show ?thesis
  proof (cases "vertexAt g (s - 1)")
    case None
    with True assms show ?thesis by (simp add: insertEdge_def Let_def)
  next
    case (Some vn)
    with True assms
    have "g' = g\<lparr>vertices := (vertices g)[nat (s - 1) := vn\<lparr>edgeHead := edgeHead vn @ [d - 1]\<rparr>]\<rparr>"
      by (simp add: insertEdge_def Let_def insertHelper_append)
    with True Some show ?thesis by simp
  qed
qed

lemma removeEdge_cases:
  assumes "removeEdge g s d = Inr g'"
  shows "g' = g \<or>
         (s \<noteq> d \<and> areInRange g (s - 1) (d - 1) \<and>
          (\<exists>vn. vertexAt g (s - 1) = Some vn \<and>
                g' = g\<lparr>vertices := (vertices g)[nat (s - 1) := vn\<lparr>edgeHead := remove1 (d - 1) (edgeHead vn)\<rparr>]\<rparr>))"
proof (cases "s - 1 \<noteq> d - 1 \<and> areInRange g (s - 1) (d - 1)")
  case False
  then have "\<not> (s - 1 \<noteq> d - 1 \<and> areInRange g (s - 1) (d - 1))" .
  with assms have "g' = g" unfolding removeEdge_def Let_def by (simp only: if_False sum.inject)
  then show ?thesis ..
next
  case True
  show ?thesis
  proof (cases "vertexAt g (s - 1)")
    case None
    with True assms show ?thesis by (simp add: removeEdge_def Let_def)
  next
    case (Some vn)
    with True assms
    have "g' = g\<lparr>vertices := (vertices g)[nat (s - 1) := vn\<lparr>edgeHead := remove1 (d - 1) (edgeHead vn)\<rparr>]\<rparr>"
      by (simp add: removeEdge_def Let_def removeHelper_remove1)
    with True Some show ?thesis by simp
  qed
qed

section \<open>The invariant of the Edge Sets\<close>

lemma edgeSets_valid_intro:
  assumes "size_g g \<le> int (length (vertices g))"
    and "\<And>v. 0 \<le> v \<Longrightarrow> v < size_g g \<Longrightarrow> v \<notin> set (edgeHead (vertices g ! nat v))"
    and "\<And>v u. 0 \<le> v \<Longrightarrow> v < size_g g \<Longrightarrow> u \<in> set (edgeHead (vertices g ! nat v)) \<Longrightarrow>
           0 \<le> u \<and> u < size_g g"
  shows "edgeSets_valid g"
  unfolding edgeSets_valid_def
proof (intro conjI ballI)
  show "size_g g \<le> int (length (vertices g))" by (rule assms(1))
next
  fix v assume "v \<in> {0 ..< size_g g}"
  then have "0 \<le> v" "v < size_g g" by simp_all
  then show "v \<notin> set (edgeHead (vertices g ! nat v))" by (rule assms(2))
next
  fix v u assume "v \<in> {0 ..< size_g g}" and u: "u \<in> set (edgeHead (vertices g ! nat v))"
  then have "0 \<le> v" "v < size_g g" by simp_all
  from assms(3) [OF this u] show "0 \<le> u" "u < size_g g" by simp_all
qed

lemma edgeSets_valid_elim:
  assumes "edgeSets_valid g" "0 \<le> v" "v < size_g g"
  shows "v < int (length (vertices g))"
    and "v \<notin> set (edgeHead (vertices g ! nat v))"
    and "u \<in> set (edgeHead (vertices g ! nat v)) \<Longrightarrow> 0 \<le> u \<and> u < size_g g"
proof -
  from assms(2,3) have v: "v \<in> {0 ..< size_g g}" by simp
  from assms(1) have a: "size_g g \<le> int (length (vertices g))"
    and b: "\<forall>v \<in> {0 ..< size_g g}.
         v \<notin> set (edgeHead (vertices g ! nat v)) \<and>
         (\<forall>u \<in> set (edgeHead (vertices g ! nat v)). 0 \<le> u \<and> u < size_g g)"
    unfolding edgeSets_valid_def by (rule conjunct1, rule conjunct2)
  from a assms(3) show "v < int (length (vertices g))" by arith
  from b v have c: "v \<notin> set (edgeHead (vertices g ! nat v)) \<and>
         (\<forall>u \<in> set (edgeHead (vertices g ! nat v)). 0 \<le> u \<and> u < size_g g)" by (rule bspec)
  from c show "v \<notin> set (edgeHead (vertices g ! nat v))" by (rule conjunct1)
  from c show "u \<in> set (edgeHead (vertices g ! nat v)) \<Longrightarrow> 0 \<le> u \<and> u < size_g g"
    by blast
qed

lemma edgeSets_valid_update:
  assumes inv: "edgeSets_valid g"
    and i: "0 \<le> i" "i < size_g g"
    and es: "i \<notin> set es" "\<And>u. u \<in> set es \<Longrightarrow> 0 \<le> u \<and> u < size_g g"
  shows "edgeSets_valid (g\<lparr>vertices := (vertices g)[nat i := vn\<lparr>edgeHead := es\<rparr>]\<rparr>)"
proof (rule edgeSets_valid_intro)
  let ?g' = "g\<lparr>vertices := (vertices g)[nat i := vn\<lparr>edgeHead := es\<rparr>]\<rparr>"
  from edgeSets_valid_elim(1) [OF inv i] have il: "nat i < length (vertices g)" using i by arith
  from inv show "size_g ?g' \<le> int (length (vertices ?g'))"
    by (simp add: edgeSets_valid_def)
  have at_i: "edgeHead (vertices ?g' ! nat i) = es" using il by simp
  have other: "vertices ?g' ! nat v = vertices g ! nat v" if "0 \<le> v" "v \<noteq> i" for v
  proof -
    from that i have "nat v \<noteq> nat i" by arith
    then show ?thesis by simp
  qed
  {
    fix v assume v: "0 \<le> v" "v < size_g ?g'"
    then have v': "v < size_g g" by simp
    show "v \<notin> set (edgeHead (vertices ?g' ! nat v))"
    proof (cases "v = i")
      case True
      with at_i es(1) show ?thesis by (simp only: not_False_eq_True)
    next
      case False
      from edgeSets_valid_elim(2) [OF inv v(1) v'] other [OF v(1) False]
      show ?thesis by (simp only: not_False_eq_True)
    qed
  next
    fix v u assume v: "0 \<le> v" "v < size_g ?g'"
      and u: "u \<in> set (edgeHead (vertices ?g' ! nat v))"
    from v have v': "v < size_g g" by simp
    have "0 \<le> u \<and> u < size_g g"
    proof (cases "v = i")
      case True
      with at_i u have "u \<in> set es" by (simp only:)
      then show ?thesis by (rule es(2))
    next
      case False
      from u other [OF v(1) False] have "u \<in> set (edgeHead (vertices g ! nat v))"
        by (simp only:)
      then show ?thesis by (rule edgeSets_valid_elim(3) [OF inv v(1) v'])
    qed
    then show "0 \<le> u \<and> u < size_g ?g'" by simp
  }
qed

lemma edgeSets_valid_at:
  assumes "edgeSets_valid g" "0 \<le> v" "v < size_g g"
  shows "\<exists>vn. vertexAt g v = Some vn \<and> v \<notin> set (edgeHead vn) \<and>
        (\<forall>u \<in> set (edgeHead vn). 0 \<le> u \<and> u < size_g g)"
proof -
  from edgeSets_valid_elim(1) [OF assms] assms(2)
  have "vertexAt g v = Some (vertices g ! nat v)" by (simp add: vertexAt_def)
  moreover note edgeSets_valid_elim(2) [OF assms]
  moreover have "\<forall>u \<in> set (edgeHead (vertices g ! nat v)). 0 \<le> u \<and> u < size_g g"
    using edgeSets_valid_elim(3) [OF assms] by blast
  ultimately show ?thesis by blast
qed

lemma vertexAt_nth: "vertexAt g v = Some vn \<Longrightarrow> vn = vertices g ! nat v"
  by (simp add: vertexAt_def split: if_splits)

lemma edgeSets_valid_insertEdge:
  assumes "edgeSets_valid g" "insertEdge g s d = Inr g'"
  shows "edgeSets_valid g'"
proof -
  from insertEdge_cases [OF assms(2)] show ?thesis
  proof
    assume "g' = g" with assms(1) show ?thesis by simp
  next
    assume a: "s \<noteq> d \<and> areInRange g (s - 1) (d - 1) \<and>
          (\<exists>vn. vertexAt g (s - 1) = Some vn \<and>
                g' = g\<lparr>vertices := (vertices g)[nat (s - 1) := vn\<lparr>edgeHead := edgeHead vn @ [d - 1]\<rparr>]\<rparr>)"
    then obtain vn where vn: "vertexAt g (s - 1) = Some vn"
      and g': "g' = g\<lparr>vertices := (vertices g)[nat (s - 1) := vn\<lparr>edgeHead := edgeHead vn @ [d - 1]\<rparr>]\<rparr>"
      by blast
    from a have r: "0 \<le> s - 1" "s - 1 < size_g g" "0 \<le> d - 1" "d - 1 < size_g g" "s - 1 \<noteq> d - 1"
      by (simp_all add: areInRange_def)
    from vn have vn': "vn = vertices g ! nat (s - 1)" by (rule vertexAt_nth)
    have n1: "s - 1 \<notin> set (edgeHead vn @ [d - 1])"
      using edgeSets_valid_elim(2) [OF assms(1) r(1,2)] r(5) vn' by simp
    have n2: "0 \<le> u \<and> u < size_g g" if "u \<in> set (edgeHead vn @ [d - 1])" for u
    proof (cases "u = d - 1")
      case True
      with r show ?thesis by simp
    next
      case False
      with that vn' have "u \<in> set (edgeHead (vertices g ! nat (s - 1)))" by simp
      then show ?thesis by (rule edgeSets_valid_elim(3) [OF assms(1) r(1,2)])
    qed
    from edgeSets_valid_update [OF assms(1) r(1,2) n1 n2] g' show ?thesis by (simp only:)
  qed
qed

lemma edgeSets_valid_removeEdge:
  assumes "edgeSets_valid g" "removeEdge g s d = Inr g'"
  shows "edgeSets_valid g'"
proof -
  from removeEdge_cases [OF assms(2)] show ?thesis
  proof
    assume "g' = g" with assms(1) show ?thesis by simp
  next
    assume a: "s \<noteq> d \<and> areInRange g (s - 1) (d - 1) \<and>
          (\<exists>vn. vertexAt g (s - 1) = Some vn \<and>
                g' = g\<lparr>vertices := (vertices g)[nat (s - 1) := vn\<lparr>edgeHead := remove1 (d - 1) (edgeHead vn)\<rparr>]\<rparr>)"
    then obtain vn where vn: "vertexAt g (s - 1) = Some vn"
      and g': "g' = g\<lparr>vertices := (vertices g)[nat (s - 1) := vn\<lparr>edgeHead := remove1 (d - 1) (edgeHead vn)\<rparr>]\<rparr>"
      by blast
    from a have r: "0 \<le> s - 1" "s - 1 < size_g g"
      by (simp_all add: areInRange_def)
    from vn have vn': "vn = vertices g ! nat (s - 1)" by (rule vertexAt_nth)
    have sub: "u \<in> set (edgeHead (vertices g ! nat (s - 1)))"
      if "u \<in> set (remove1 (d - 1) (edgeHead vn))" for u
    proof -
      have "set (remove1 (d - 1) (edgeHead vn)) \<subseteq> set (edgeHead vn)"
        by (rule set_remove1_subset)
      with that have "u \<in> set (edgeHead vn)" by (rule subsetD [rotated])
      with vn' show ?thesis by (simp only:)
    qed
    have n1: "s - 1 \<notin> set (remove1 (d - 1) (edgeHead vn))"
      using edgeSets_valid_elim(2) [OF assms(1) r(1,2)] sub by blast
    have n2: "0 \<le> u \<and> u < size_g g" if "u \<in> set (remove1 (d - 1) (edgeHead vn))" for u
      using edgeSets_valid_elim(3) [OF assms(1) r(1,2) sub [OF that]] .
    from edgeSets_valid_update [OF assms(1) r(1,2) n1 n2] g' show ?thesis by (simp only:)
  qed
qed

lemma edgeSets_valid_emptyGraph:
  assumes "length labels \<le> MAXVERTICES"
  shows "edgeSets_valid (emptyGraph labels)"
proof (rule edgeSets_valid_intro)
  from assms show "size_g (emptyGraph labels) \<le> int (length (vertices (emptyGraph labels)))"
    by (simp add: emptyGraph_def)
  have e: "edgeHead (vertices (emptyGraph labels) ! nat v) = []"
    if "0 \<le> v" "v < size_g (emptyGraph labels)" for v
  proof -
    from that have "nat v < length labels" by (simp add: emptyGraph_def)
    then show ?thesis by (simp add: emptyGraph_def nth_append)
  qed
  {
    fix v assume "0 \<le> v" "v < size_g (emptyGraph labels)"
    from e [OF this] show "v \<notin> set (edgeHead (vertices (emptyGraph labels) ! nat v))" by simp
  next
    fix v u assume "0 \<le> v" "v < size_g (emptyGraph labels)"
      and "u \<in> set (edgeHead (vertices (emptyGraph labels) ! nat v))"
    with e show "0 \<le> u \<and> u < size_g (emptyGraph labels)" by simp
  }
qed

lemma reachable_edgeSets_valid: "reachable g \<Longrightarrow> edgeSets_valid g"
proof (induction rule: reachable.induct)
  case (start labels)
  then show ?case by (rule edgeSets_valid_emptyGraph)
next
  case (insert g source destination g')
  from insert.IH insert.hyps(2) show ?case by (rule edgeSets_valid_insertEdge)
next
  case (remove g source destination g')
  from remove.IH remove.hyps(2) show ?case by (rule edgeSets_valid_removeEdge)
qed


text \<open>
  Every reachable state is a graph the enumeration can run on: the slots beyond the
  vertices in use keep the empty Edge Set they were constructed with, and the array keeps
  its \<open>MAXVERTICES\<close> slots.
\<close>

lemma unused_slots_update:
  assumes u: "\<And>j. size_g g \<le> int j \<Longrightarrow> j < length (vertices g) \<Longrightarrow>
                 edgeHead (vertices g ! j) = []"
    and i: "0 \<le> i" "i < size_g g"
    and j: "size_g g \<le> int j" "j < length (vertices g)"
  shows "edgeHead ((vertices g)[nat i := x] ! j) = []"
proof -
  from i j have "j \<noteq> nat i" by arith
  then have "(vertices g)[nat i := x] ! j = vertices g ! j" by simp
  with u [OF j] show ?thesis by (simp only:)
qed

lemma reachable_unused_slots:
  "reachable g \<Longrightarrow>
   0 \<le> size_g g \<and>
   (\<forall>j. size_g g \<le> int j \<longrightarrow> j < length (vertices g) \<longrightarrow> edgeHead (vertices g ! j) = [])"
proof (induction rule: reachable.induct)
  case (start labels)
  have "edgeHead (vertices (emptyGraph labels) ! j) = []"
    if "size_g (emptyGraph labels) \<le> int j" "j < length (vertices (emptyGraph labels))" for j
  proof -
    from that(1) have a: "\<not> j < length labels" by (simp add: emptyGraph_def)
    from that(2) start have b: "j - length labels < MAXVERTICES - length labels"
      using a by (simp add: emptyGraph_def)
    from a b show ?thesis by (simp add: emptyGraph_def nth_append defaultVertexNode_def)
  qed
  then show ?case by (simp add: emptyGraph_def)
next
  case (insert g source destination g')
  then have s: "0 \<le> size_g g"
    and u: "\<And>j. size_g g \<le> int j \<Longrightarrow> j < length (vertices g) \<Longrightarrow>
                 edgeHead (vertices g ! j) = []" by simp_all
  from insertEdge_cases [OF insert.hyps(2)] show ?case
  proof
    assume "g' = g" with insert.IH show ?thesis by simp
  next
    assume a: "source \<noteq> destination \<and> areInRange g (source - 1) (destination - 1) \<and>
          (\<exists>vn. vertexAt g (source - 1) = Some vn \<and>
                g' = g\<lparr>vertices := (vertices g)
                  [nat (source - 1) := vn\<lparr>edgeHead := edgeHead vn @ [destination - 1]\<rparr>]\<rparr>)"
    then obtain vn where g': "g' = g\<lparr>vertices := (vertices g)
                  [nat (source - 1) := vn\<lparr>edgeHead := edgeHead vn @ [destination - 1]\<rparr>]\<rparr>"
      by blast
    from a have r: "0 \<le> source - 1" "source - 1 < size_g g" by (simp_all add: areInRange_def)
    have "edgeHead (vertices g' ! j) = []"
      if "size_g g' \<le> int j" "j < length (vertices g')" for j
    proof -
      from that have "size_g g \<le> int j" "j < length (vertices g)" by (simp_all add: g')
      from unused_slots_update [OF u r this] show ?thesis by (simp add: g')
    qed
    with s show ?thesis by (simp add: g')
  qed
next
  case (remove g source destination g')
  then have s: "0 \<le> size_g g"
    and u: "\<And>j. size_g g \<le> int j \<Longrightarrow> j < length (vertices g) \<Longrightarrow>
                 edgeHead (vertices g ! j) = []" by simp_all
  from removeEdge_cases [OF remove.hyps(2)] show ?case
  proof
    assume "g' = g" with remove.IH show ?thesis by simp
  next
    assume a: "source \<noteq> destination \<and> areInRange g (source - 1) (destination - 1) \<and>
          (\<exists>vn. vertexAt g (source - 1) = Some vn \<and>
                g' = g\<lparr>vertices := (vertices g)
                  [nat (source - 1) := vn\<lparr>edgeHead := remove1 (destination - 1) (edgeHead vn)\<rparr>]\<rparr>)"
    then obtain vn where g': "g' = g\<lparr>vertices := (vertices g)
                  [nat (source - 1) := vn\<lparr>edgeHead := remove1 (destination - 1) (edgeHead vn)\<rparr>]\<rparr>"
      by blast
    from a have r: "0 \<le> source - 1" "source - 1 < size_g g" by (simp_all add: areInRange_def)
    have "edgeHead (vertices g' ! j) = []"
      if "size_g g' \<le> int j" "j < length (vertices g')" for j
    proof -
      from that have "size_g g \<le> int j" "j < length (vertices g)" by (simp_all add: g')
      from unused_slots_update [OF u r this] show ?thesis by (simp add: g')
    qed
    with s show ?thesis by (simp add: g')
  qed
qed

lemma reachable_graph_ok:
  assumes "reachable g"
  shows "graph_ok g"
proof -
  from assms have v: "edgeSets_valid g" by (rule reachable_edgeSets_valid)
  from reachable_unused_slots [OF assms] have s: "0 \<le> size_g g"
    and u: "\<And>j. size_g g \<le> int j \<Longrightarrow> j < length (vertices g) \<Longrightarrow>
                 edgeHead (vertices g ! j) = []" by simp_all
  from v have l: "size_g g \<le> int (length (vertices g))" by (simp add: edgeSets_valid_def)
  have "0 \<le> x \<and> x < size_g g" if vn: "vn \<in> set (vertices g)" and x: "x \<in> set (edgeHead vn)"
    for vn x
  proof -
    from vn obtain j where j: "j < length (vertices g)" "vn = vertices g ! j"
      by (auto simp: in_set_conv_nth)
    show ?thesis
    proof (cases "int j < size_g g")
      case True
      have "0 \<le> int j" by simp
      from edgeSets_valid_elim(3) [OF v this True, of x] x j show ?thesis by simp
    next
      case False
      then have "size_g g \<le> int j" by simp
      from u [OF this j(1)] x j show ?thesis by simp
    qed
  qed
  with s l show ?thesis unfolding graph_ok_def by blast
qed

lemma reachable_capacity: "reachable g \<Longrightarrow> length (vertices g) = MAXVERTICES"
proof (induction rule: reachable.induct)
  case (start labels)
  then show ?case by (simp add: emptyGraph_def)
next
  case (insert g source destination g')
  from insertEdge_cases [OF insert.hyps(2)] insert.IH show ?case by auto
next
  case (remove g source destination g')
  from removeEdge_cases [OF remove.hyps(2)] remove.IH show ?case by auto
qed

section \<open>What one call of insertEdge and removeEdge does\<close>

lemma vertexAt_in_range:
  "size_g g \<le> int (length (vertices g)) \<Longrightarrow> 0 \<le> i \<Longrightarrow> i < size_g g \<Longrightarrow>
   vertexAt g i = Some (vertices g ! nat i)"
  by (simp add: vertexAt_def)

lemma insertEdge_in_range:
  assumes "source \<noteq> destination" "areInRange g (source - 1) (destination - 1)"
    and "vertexAt g (source - 1) = Some vn"
  shows "insertEdge g source destination =
         Inr (g\<lparr>vertices := (vertices g)
                  [nat (source - 1) := vn\<lparr>edgeHead := edgeHead vn @ [destination - 1]\<rparr>]\<rparr>)"
  using assms by (simp add: insertEdge_def Let_def insertHelper_append)

lemma removeEdge_in_range:
  assumes "source \<noteq> destination" "areInRange g (source - 1) (destination - 1)"
    and "vertexAt g (source - 1) = Some vn"
  shows "removeEdge g source destination =
         Inr (g\<lparr>vertices := (vertices g)
                  [nat (source - 1) := vn\<lparr>edgeHead := remove1 (destination - 1) (edgeHead vn)\<rparr>]\<rparr>)"
  using assms by (simp add: removeEdge_def Let_def removeHelper_remove1)

lemma insertEdge_no_op:
  "source = destination \<or> \<not> areInRange g (source - 1) (destination - 1) \<Longrightarrow>
   insertEdge g source destination = Inr g"
  by (auto simp: insertEdge_def Let_def)

lemma update_same_slot:
  assumes "vertexAt g i = Some vn"
  shows "g\<lparr>vertices := (vertices g)[nat i := vn\<lparr>edgeHead := edgeHead vn\<rparr>]\<rparr> = g"
proof -
  from assms have "vn = vertices g ! nat i" by (rule vertexAt_nth)
  then have "(vertices g)[nat i := vn\<lparr>edgeHead := edgeHead vn\<rparr>] = vertices g" by simp
  then show ?thesis by simp
qed

lemma map_data_update:
  assumes "vertexAt g i = Some vn"
  shows "map data ((vertices g)[nat i := vn\<lparr>edgeHead := es\<rparr>]) = map data (vertices g)"
proof -
  from assms have "vn = vertices g ! nat i" by (rule vertexAt_nth)
  moreover from assms have "nat i < length (vertices g)"
    by (simp add: vertexAt_def split: if_splits)
  ultimately
  have "(map data (vertices g))[nat i := data (vn\<lparr>edgeHead := es\<rparr>)] = map data (vertices g)"
    by (simp add: list_update_same_conv)
  then show ?thesis by (simp add: map_update)
qed

section \<open>One step of the enumeration\<close>

lemma isDuplicate_set: "isDuplicate t xs = (t \<in> set xs)"
  by (induction xs) auto

lemma set_getExtensionLoop:
  "set (getExtensionLoop v es ext) \<subseteq> set ext \<union> set es"
proof (induction es arbitrary: ext)
  case Nil
  show ?case by simp
next
  case (Cons a es)
  from Cons.IH [of "ext @ [a]"] Cons.IH [of ext] show ?case
    by (auto simp del: isDuplicate.simps)
qed

text \<open>
  What \<open>getExtension\<close> returns: the inherited extension, followed by the entries of the
  Edge Set of \<open>v\<close> that are greater than \<open>v\<close> and not in the inherited extension,
  each once, in the order of their first occurrence in the Edge Set.
\<close>

lemma remdups_snoc: "remdups (ys @ [a]) = remdups [u \<leftarrow> ys. u \<noteq> a] @ [a]"
  by (induction ys) auto

lemma first_occurrences_Cons:
  "rev (remdups (rev (a # xs))) = a # rev (remdups (rev [u \<leftarrow> xs. u \<noteq> a]))"
proof -
  have "remdups (rev xs @ [a]) = remdups [u \<leftarrow> rev xs. u \<noteq> a] @ [a]"
    by (rule remdups_snoc)
  then show ?thesis by (simp add: rev_filter)
qed

lemma getExtensionLoop_result:
  "getExtensionLoop v es ext =
     ext @ rev (remdups (rev [u \<leftarrow> es. v < u \<and> u \<notin> set ext]))"
proof (induction es arbitrary: ext)
  case Nil
  show ?case by simp
next
  case (Cons a es)
  show ?case
  proof (cases "v < a \<and> a \<notin> set ext")
    case True
    have f: "[u \<leftarrow> es. v < u \<and> u \<notin> set (ext @ [a])] = [u \<leftarrow> [u \<leftarrow> es. v < u \<and> u \<notin> set ext]. u \<noteq> a]"
      by (induction es) auto
    from True have "getExtensionLoop v (a # es) ext = getExtensionLoop v es (ext @ [a])"
      by (simp add: isDuplicate_set)
    also have "\<dots> = (ext @ [a]) @ rev (remdups (rev [u \<leftarrow> es. v < u \<and> u \<notin> set (ext @ [a])]))"
      by (rule Cons.IH)
    also have "\<dots> = ext @ rev (remdups (rev (a # [u \<leftarrow> es. v < u \<and> u \<notin> set ext])))"
      by (simp only: f first_occurrences_Cons append_assoc append_Cons append_Nil)
    also from True have "a # [u \<leftarrow> es. v < u \<and> u \<notin> set ext] = [u \<leftarrow> a # es. v < u \<and> u \<notin> set ext]"
      by simp
    finally show ?thesis .
  next
    case False
    then have "getExtensionLoop v (a # es) ext = getExtensionLoop v es ext"
      by (auto simp: isDuplicate_set)
    also have "\<dots> = ext @ rev (remdups (rev [u \<leftarrow> es. v < u \<and> u \<notin> set ext]))"
      by (rule Cons.IH)
    also from False have "[u \<leftarrow> es. v < u \<and> u \<notin> set ext] = [u \<leftarrow> a # es. v < u \<and> u \<notin> set ext]"
      by auto
    finally show ?thesis .
  qed
qed

lemma getExtension_result:
  "vertexAt g v = Some vn \<Longrightarrow>
   getExtension g v Vextension =
     Inr (Vextension @ rev (remdups (rev [u \<leftarrow> edgeHead vn. v < u \<and> u \<notin> set Vextension])))"
  by (simp add: getExtension_def getExtensionLoop_result)

lemma vertexAt_mem: "vertexAt g i = Some vn \<Longrightarrow> vn \<in> set (vertices g)"
  by (auto simp: vertexAt_def split: if_splits)

lemma getExtension_ok:
  assumes "graph_ok g" "0 \<le> w" "w < int (length (vertices g))"
    and "\<forall>u \<in> set ext. 0 \<le> u \<and> u < size_g g"
  shows "\<exists>ext2. getExtension g w ext = Inr ext2 \<and> (\<forall>u \<in> set ext2. 0 \<le> u \<and> u < size_g g)"
proof -
  from assms(2,3) obtain vn where vn: "vertexAt g w = Some vn"
    by (auto simp: vertexAt_def)
  then have "vn \<in> set (vertices g)" by (rule vertexAt_mem)
  with assms(1) have es: "\<forall>u \<in> set (edgeHead vn). 0 \<le> u \<and> u < size_g g"
    unfolding graph_ok_def by blast
  have "set (getExtensionLoop w (edgeHead vn) ext) \<subseteq> set ext \<union> set (edgeHead vn)"
    by (rule set_getExtensionLoop)
  with es assms(4) have "\<forall>u \<in> set (getExtensionLoop w (edgeHead vn) ext). 0 \<le> u \<and> u < size_g g"
    by blast
  moreover from vn have "getExtension g w ext = Inr (getExtensionLoop w (edgeHead vn) ext)"
    by (simp add: getExtension_def)
  ultimately show ?thesis by blast
qed

lemma extendSubgraph_emit:
  "int (length Vsubgraph) = to_size_t k \<Longrightarrow>
   extendSubgraph g Vsubgraph Vextension v k = Inr [map (\<lambda>x. x + 1) Vsubgraph]"
  by (subst extendSubgraph.simps) simp

lemma extendSubgraph_loop:
  "int (length Vsubgraph) \<noteq> to_size_t k \<Longrightarrow>
   extendSubgraph g Vsubgraph Vextension v k = extendWhile g Vsubgraph Vextension v k"
  by (subst extendSubgraph.simps) simp

lemma extendWhile_Nil: "extendWhile g Vsubgraph [] v k = Inr []"
  by (subst extendWhile.simps) simp

lemma extendWhile_stop:
  "\<not> int (length Vsubgraph) < to_size_t k \<Longrightarrow> extendWhile g Vsubgraph Vextension v k = Inr []"
  by (subst extendWhile.simps) (simp split: list.splits)

lemma extendWhile_step:
  "int (length Vsubgraph) < to_size_t k \<Longrightarrow> getExtension g w rest = Inr Vextension2 \<Longrightarrow>
   extendSubgraph g (Vsubgraph @ [w]) Vextension2 v k = Inr out1 \<Longrightarrow>
   extendWhile g Vsubgraph rest v k = Inr out2 \<Longrightarrow>
   extendWhile g Vsubgraph (w # rest) v k = Inr (out1 @ out2)"
  by (subst extendWhile.simps) simp

lemma enumerateLoop_done: "\<not> i \<le> size_g g \<Longrightarrow> enumerateLoop g k i = Inr []"
  by (subst enumerateLoop.simps) simp

lemma enumerateLoop_step:
  "i \<le> size_g g \<Longrightarrow> getExtension g i [] = Inr Vextension \<Longrightarrow>
   extendSubgraph g [i] Vextension i k = Inr out1 \<Longrightarrow>
   enumerateLoop g k i =
     (case enumerateLoop g k (i + 1) of Inl e \<Rightarrow> Inl e | Inr out2 \<Rightarrow> Inr (out1 @ out2))"
  by (subst enumerateLoop.simps) simp

lemma enumerateLoop_error:
  "i \<le> size_g g \<Longrightarrow> getExtension g i [] = Inl e \<Longrightarrow> enumerateLoop g k i = Inl e"
  by (subst enumerateLoop.simps) simp

lemma extend_total:
  "graph_ok g \<Longrightarrow> (\<forall>u \<in> set Vextension. 0 \<le> u \<and> u < size_g g) \<Longrightarrow>
     \<exists>out. extendSubgraph g Vsubgraph Vextension v k = Inr out \<and>
           (\<forall>line \<in> set out. int (length line) = to_size_t k)"
  "graph_ok g \<Longrightarrow> (\<forall>u \<in> set Vextension. 0 \<le> u \<and> u < size_g g) \<Longrightarrow>
     \<exists>out. extendWhile g Vsubgraph Vextension v k = Inr out \<and>
           (\<forall>line \<in> set out. int (length line) = to_size_t k)"
proof (induction g Vsubgraph Vextension v k and g Vsubgraph Vextension v k
       rule: extendSubgraph_extendWhile.induct)
  case (1 g Vsubgraph Vextension v k)
  show ?case
  proof (cases "int (length Vsubgraph) = to_size_t k")
    case True
    then show ?thesis by (simp add: extendSubgraph_emit)
  next
    case False
    from "1.IH" [OF False "1.prems"] show ?thesis
      by (simp only: extendSubgraph_loop [OF False])
  qed
next
  case (2 g Vsubgraph Vextension v k)
  show ?case
  proof (cases Vextension)
    case Nil
    then show ?thesis by (simp add: extendWhile_Nil)
  next
    case (Cons w rest)
    show ?thesis
    proof (cases "int (length Vsubgraph) < to_size_t k")
      case False
      then show ?thesis by (simp add: extendWhile_stop)
    next
      case True
      from "2.prems" Cons have w: "0 \<le> w" "w < size_g g"
        and rest: "\<forall>u \<in> set rest. 0 \<le> u \<and> u < size_g g" by simp_all
      from "2.prems"(1) w have "w < int (length (vertices g))"
        by (simp add: graph_ok_def)
      from getExtension_ok [OF "2.prems"(1) w(1) this rest]
      obtain ext2 where e2: "getExtension g w rest = Inr ext2"
        and e2r: "\<forall>u \<in> set ext2. 0 \<le> u \<and> u < size_g g" by blast
      from "2.IH"(1) [OF Cons True e2 "2.prems"(1) e2r]
      obtain out1 where o1: "extendSubgraph g (Vsubgraph @ [w]) ext2 v k = Inr out1"
        and l1: "\<forall>line \<in> set out1. int (length line) = to_size_t k" by blast
      from "2.IH"(2) [OF Cons True e2 o1 "2.prems"(1) rest]
      obtain out2 where o2: "extendWhile g Vsubgraph rest v k = Inr out2"
        and l2: "\<forall>line \<in> set out2. int (length line) = to_size_t k" by blast
      from extendWhile_step [OF True e2 o1 o2] Cons
      have "extendWhile g Vsubgraph Vextension v k = Inr (out1 @ out2)" by simp
      moreover from l1 l2 have "\<forall>line \<in> set (out1 @ out2). int (length line) = to_size_t k"
        by auto
      ultimately show ?thesis by blast
    qed
  qed
qed


lemma to_size_t_id: "0 \<le> k \<Longrightarrow> k < 2 ^ 64 \<Longrightarrow> to_size_t k = k"
  by (simp add: to_size_t_def)

lemma enumerateLoop_total:
  "graph_ok g \<Longrightarrow> size_g g < int (length (vertices g)) \<Longrightarrow> 0 \<le> i \<Longrightarrow>
     \<exists>out. enumerateLoop g k i = Inr out \<and>
           (\<forall>line \<in> set out. int (length line) = to_size_t k)"
proof (induction g k i rule: enumerateLoop.induct)
  case (1 g k i)
  show ?case
  proof (cases "i \<le> size_g g")
    case False
    then show ?thesis by (simp add: enumerateLoop_done)
  next
    case True
    with "1.prems" have il: "i < int (length (vertices g))" by simp
    have "\<forall>u \<in> set ([]::int list). 0 \<le> u \<and> u < size_g g" by simp
    from getExtension_ok [OF "1.prems"(1) "1.prems"(3) il this]
    obtain ext where e: "getExtension g i [] = Inr ext"
      and er: "\<forall>u \<in> set ext. 0 \<le> u \<and> u < size_g g" by blast
    from extend_total(1) [OF "1.prems"(1) er]
    obtain out1 where o1: "extendSubgraph g [i] ext i k = Inr out1"
      and l1: "\<forall>line \<in> set out1. int (length line) = to_size_t k" by blast
    from "1.prems"(3) have "0 \<le> i + 1" by simp
    from "1.IH" [OF True e o1 "1.prems"(1,2) this]
    obtain out2 where o2: "enumerateLoop g k (i + 1) = Inr out2"
      and l2: "\<forall>line \<in> set out2. int (length line) = to_size_t k" by blast
    have "enumerateLoop g k i = Inr (out1 @ out2)"
      by (simp add: enumerateLoop_step [OF True e o1] o2)
    moreover from l1 l2 have "\<forall>line \<in> set (out1 @ out2). int (length line) = to_size_t k"
      by auto
    ultimately show ?thesis by blast
  qed
qed

lemma enumerateLoop_full:
  "graph_ok g \<Longrightarrow> vertexAt g (size_g g) = None \<Longrightarrow> 0 \<le> i \<Longrightarrow> i \<le> size_g g \<Longrightarrow>
     enumerateLoop g k i = Inl OutOfBounds"
proof (induction g k i rule: enumerateLoop.induct)
  case (1 g k i)
  show ?case
  proof (cases "i = size_g g")
    case True
    with "1.prems"(2) have "getExtension g i [] = Inl OutOfBounds"
      by (simp add: getExtension_def)
    with "1.prems"(4) show ?thesis by (rule enumerateLoop_error)
  next
    case False
    with "1.prems" have lt: "i < size_g g" by simp
    with "1.prems"(1) have il: "i < int (length (vertices g))" by (simp add: graph_ok_def)
    have "\<forall>u \<in> set ([]::int list). 0 \<le> u \<and> u < size_g g" by simp
    from getExtension_ok [OF "1.prems"(1) "1.prems"(3) il this]
    obtain ext where e: "getExtension g i [] = Inr ext"
      and er: "\<forall>u \<in> set ext. 0 \<le> u \<and> u < size_g g" by blast
    from extend_total(1) [OF "1.prems"(1) er]
    obtain out1 where o1: "extendSubgraph g [i] ext i k = Inr out1" by blast
    from "1.prems"(3) lt have "0 \<le> i + 1" "i + 1 \<le> size_g g" by simp_all
    from "1.IH" [OF "1.prems"(4) e o1 "1.prems"(1,2) this]
    have "enumerateLoop g k (i + 1) = Inl OutOfBounds" .
    then show ?thesis by (simp add: enumerateLoop_step [OF "1.prems"(4) e o1])
  qed
qed

lemma extendSubgraph_k0:
  "Vsubgraph \<noteq> [] \<Longrightarrow> extendSubgraph g Vsubgraph Vextension v 0 = Inr []"
  by (simp add: extendSubgraph_loop extendWhile_stop to_size_t_def)

lemma enumerateLoop_k0:
  "enumerateLoop g 0 i = Inr out \<Longrightarrow> out = []"
proof (induction g "0::int" i arbitrary: out rule: enumerateLoop.induct)
  case (1 g i)
  show ?case
  proof (cases "i \<le> size_g g")
    case False
    with "1.prems" show ?thesis by (simp add: enumerateLoop_done)
  next
    case True
    show ?thesis
    proof (cases "getExtension g i []")
      case (Inl e)
      from enumerateLoop_error [OF True Inl] "1.prems" show ?thesis by simp
    next
      case (Inr ext)
      have o1: "extendSubgraph g [i] ext i 0 = Inr []" by (rule extendSubgraph_k0) simp
      from enumerateLoop_step [OF True Inr o1] "1.prems"
      have "enumerateLoop g 0 (i + 1) = Inr out" by (simp split: sum.splits)
      with True Inr o1 show ?thesis by (rule "1.hyps")
    qed
  qed
qed

lemma enumerateLoop_k1:
  "graph_ok g \<Longrightarrow> size_g g < int (length (vertices g)) \<Longrightarrow> 0 \<le> i \<Longrightarrow>
     enumerateLoop g 1 i = Inr (map (\<lambda>j. [j + 1]) [i .. size_g g])"
proof (induction g "1::int" i rule: enumerateLoop.induct)
  case (1 g i)
  show ?case
  proof (cases "i \<le> size_g g")
    case False
    then show ?thesis by (simp add: enumerateLoop_done)
  next
    case True
    with "1.prems" have il: "i < int (length (vertices g))" by simp
    have "\<forall>u \<in> set ([]::int list). 0 \<le> u \<and> u < size_g g" by simp
    from getExtension_ok [OF "1.prems"(1) "1.prems"(3) il this]
    obtain ext where e: "getExtension g i [] = Inr ext" by blast
    have o1: "extendSubgraph g [i] ext i 1 = Inr [[i + 1]]"
      by (simp add: extendSubgraph_emit to_size_t_def)
    from "1.prems"(3) have "0 \<le> i + 1" by simp
    from "1.hyps" [OF True e o1 "1.prems"(1,2) this]
    have "enumerateLoop g 1 (i + 1) = Inr (map (\<lambda>j. [j + 1]) [i + 1 .. size_g g])" .
    moreover from True have "[i .. size_g g] = i # [i + 1 .. size_g g]" by (rule upto_rec1)
    ultimately show ?thesis by (simp add: enumerateLoop_step [OF True e o1])
  qed
qed

section \<open>Claims about the Edge Sets\<close>

text \<open>
  C5. In every reachable graph state the Edge Set of each vertex in use holds neither the
  vertex itself nor an index outside \<open>0 ..< size\<close>, and \<open>insertEdge\<close> and
  \<open>removeEdge\<close> preserve this: \<open>edgeSets_valid\<close> holds of every reachable state, and
  whenever it holds before a call of either operation it holds after it.
\<close>

theorem edge_sets_invariant:
  "(reachable g \<longrightarrow> edgeSets_valid g) \<and>
   (edgeSets_valid g \<and> insertEdge g source destination = Inr g' \<longrightarrow> edgeSets_valid g') \<and>
   (edgeSets_valid g \<and> removeEdge g source destination = Inr g'' \<longrightarrow> edgeSets_valid g'')"
proof (intro conjI impI)
  assume "reachable g" then show "edgeSets_valid g" by (rule reachable_edgeSets_valid)
next
  assume "edgeSets_valid g \<and> insertEdge g source destination = Inr g'"
  then show "edgeSets_valid g'" by (blast intro: edgeSets_valid_insertEdge)
next
  assume "edgeSets_valid g \<and> removeEdge g source destination = Inr g''"
  then show "edgeSets_valid g''" by (blast intro: edgeSets_valid_removeEdge)
qed

text \<open>
  An instance: the graph on two vertices with the edge \<open>(1,2)\<close>, reached by one
  insertion, then one more insertion and one removal.
\<close>

theorem edge_sets_invariant_witness:
  "reachable (graphOf [(''a'', [1]), (''b'', [])]) \<and>
   edgeSets_valid (graphOf [(''a'', [1]), (''b'', [])]) \<and>
   insertEdge (graphOf [(''a'', [1]), (''b'', [])]) 2 1 = Inr (graphOf [(''a'', [1]), (''b'', [0])]) \<and>
   edgeSets_valid (graphOf [(''a'', [1]), (''b'', [0])]) \<and>
   removeEdge (graphOf [(''a'', [1]), (''b'', [])]) 1 2 = Inr (graphOf [(''a'', []), (''b'', [])]) \<and>
   edgeSets_valid (graphOf [(''a'', []), (''b'', [])])"
proof -
  have s: "reachable (emptyGraph [''a'', ''b''])"
    by (rule reachable.start) (simp add: MAXVERTICES_def)
  have i: "insertEdge (emptyGraph [''a'', ''b'']) 1 2 = Inr (graphOf [(''a'', [1]), (''b'', [])])"
    by (simp add: insertEdge_def emptyGraph_def graphOf_def areInRange_def vertexAt_def
        MAXVERTICES_def)
  from s i have r: "reachable (graphOf [(''a'', [1]), (''b'', [])])" by (rule reachable.insert)
  have i2: "insertEdge (graphOf [(''a'', [1]), (''b'', [])]) 2 1
              = Inr (graphOf [(''a'', [1]), (''b'', [0])])"
    by (simp add: insertEdge_def graphOf_def areInRange_def vertexAt_def MAXVERTICES_def)
  have r2: "removeEdge (graphOf [(''a'', [1]), (''b'', [])]) 1 2
              = Inr (graphOf [(''a'', []), (''b'', [])])"
    by (simp add: removeEdge_def graphOf_def areInRange_def vertexAt_def MAXVERTICES_def)
  from r i2 r2
    edge_sets_invariant [of "graphOf [(''a'', [1]), (''b'', [])]" 2 1
      "graphOf [(''a'', [1]), (''b'', [0])]"]
    edge_sets_invariant [of "graphOf [(''a'', [1]), (''b'', [])]" 1 2 _
      "graphOf [(''a'', []), (''b'', [])]"]
  show ?thesis by blast
qed

text \<open>
  C2. Inserting an edge a second time should leave the Edge Set as it is. The code does
  not do so: \<open>insertHelper\<close> never compares, so the second \<open>insertEdge(1, 2)\<close> on a
  graph with two vertices appends 1 again, and the Edge Set of vertex 0 is \<open>[1, 1]\<close>.
\<close>

theorem insertEdge_twice_appends_twice:
  "insertEdge (graphOf [(''a'', []), (''b'', [])]) 1 2 = Inr (graphOf [(''a'', [1]), (''b'', [])]) \<and>
   insertEdge (graphOf [(''a'', [1]), (''b'', [])]) 1 2 = Inr (graphOf [(''a'', [1, 1]), (''b'', [])]) \<and>
   edgeSets (graphOf [(''a'', [1, 1]), (''b'', [])]) = [[1, 1], []]"
  by (simp add: insertEdge_def graphOf_def areInRange_def vertexAt_def MAXVERTICES_def
      edgeSets_def)

text \<open>
  C6. For a graph whose vertices in use lie within the array and an in-range pair
  \<open>(source, destination)\<close> that is not a self-loop, \<open>removeEdge\<close> signals no error
  and changes nothing but the Edge Set of \<open>source - 1\<close>. If \<open>destination - 1\<close> is
  not in that Edge Set, the Edge Set and the whole graph are as before. If it is, the
  first entry equal to it is taken out and every other entry stays, in order.
\<close>

theorem removeEdge_removes_one_entry:
  assumes "size_g g \<le> int (length (vertices g))"
    and "areInRange g (source - 1) (destination - 1)" and "source \<noteq> destination"
  shows "\<exists>g' vn es'.
           removeEdge g source destination = Inr g' \<and>
           vertexAt g (source - 1) = Some vn \<and>
           vertexAt g' (source - 1) = Some (vn\<lparr>edgeHead := es'\<rparr>) \<and>
           size_g g' = size_g g \<and>
           (\<forall>i. i \<noteq> source - 1 \<longrightarrow> vertexAt g' i = vertexAt g i) \<and>
           (destination - 1 \<notin> set (edgeHead vn) \<longrightarrow> es' = edgeHead vn \<and> g' = g) \<and>
           (destination - 1 \<in> set (edgeHead vn) \<longrightarrow>
              (\<exists>xs ys. edgeHead vn = xs @ (destination - 1) # ys \<and>
                       destination - 1 \<notin> set xs \<and> es' = xs @ ys))"
proof -
  let ?i = "source - 1" and ?d = "destination - 1"
  from assms(2) have r: "0 \<le> ?i" "?i < size_g g" by (simp_all add: areInRange_def)
  define vn where "vn = vertices g ! nat ?i"
  define es' where "es' = remove1 ?d (edgeHead vn)"
  define g' where "g' = g\<lparr>vertices := (vertices g)[nat ?i := vn\<lparr>edgeHead := es'\<rparr>]\<rparr>"
  from vertexAt_in_range [OF assms(1) r] have vn: "vertexAt g ?i = Some vn"
    by (simp add: vn_def)
  from removeEdge_in_range [OF assms(3,2) vn]
  have 1: "removeEdge g source destination = Inr g'" by (simp add: g'_def es'_def)
  from vn have il: "?i < int (length (vertices g))" by (simp add: vertexAt_def split: if_splits)
  have 2: "vertexAt g' ?i = Some (vn\<lparr>edgeHead := es'\<rparr>)"
    using r(1) il by (simp add: g'_def vertexAt_update)
  have 3: "size_g g' = size_g g" by (simp add: g'_def)
  have 4: "\<forall>i. i \<noteq> ?i \<longrightarrow> vertexAt g' i = vertexAt g i"
    using r(1) by (simp add: g'_def vertexAt_update)
  have 5: "?d \<notin> set (edgeHead vn) \<longrightarrow> es' = edgeHead vn \<and> g' = g"
  proof
    assume "?d \<notin> set (edgeHead vn)"
    then have e: "es' = edgeHead vn" by (simp add: es'_def remove1_idem)
    with update_same_slot [OF vn] have "g' = g" by (simp add: g'_def)
    with e show "es' = edgeHead vn \<and> g' = g" ..
  qed
  have 6: "?d \<in> set (edgeHead vn) \<longrightarrow>
              (\<exists>xs ys. edgeHead vn = xs @ ?d # ys \<and> ?d \<notin> set xs \<and> es' = xs @ ys)"
  proof
    assume "?d \<in> set (edgeHead vn)"
    then obtain xs ys where s: "edgeHead vn = xs @ ?d # ys" "?d \<notin> set xs"
      by (blast dest: split_list_first)
    then have "es' = xs @ ys" by (simp add: es'_def remove1_append)
    with s show "\<exists>xs ys. edgeHead vn = xs @ ?d # ys \<and> ?d \<notin> set xs \<and> es' = xs @ ys"
      by blast
  qed
  from 1 vn 2 3 4 5 6 show ?thesis by blast
qed

text \<open>
  An instance with the entry present (twice, so that one of them stays) and one with the
  entry absent.
\<close>

theorem removeEdge_removes_one_entry_witness:
  "size_g (graphOf [(''a'', [1, 2, 1]), (''b'', []), (''c'', [])])
     \<le> int (length (vertices (graphOf [(''a'', [1, 2, 1]), (''b'', []), (''c'', [])]))) \<and>
   areInRange (graphOf [(''a'', [1, 2, 1]), (''b'', []), (''c'', [])]) (1 - 1) (2 - 1) \<and>
   (1::int) \<noteq> 2 \<and>
   removeEdge (graphOf [(''a'', [1, 2, 1]), (''b'', []), (''c'', [])]) 1 2
     = Inr (graphOf [(''a'', [2, 1]), (''b'', []), (''c'', [])]) \<and>
   removeEdge (graphOf [(''a'', [2, 1]), (''b'', []), (''c'', [])]) 2 1
     = Inr (graphOf [(''a'', [2, 1]), (''b'', []), (''c'', [])])"
proof -
  let ?g = "graphOf [(''a'', [1, 2, 1]), (''b'', []), (''c'', [])]"
  have h1: "size_g ?g \<le> int (length (vertices ?g))"
    by (simp add: graphOf_def MAXVERTICES_def)
  have h2: "areInRange ?g (1 - 1) (2 - 1)" by (simp add: areInRange_def graphOf_def)
  have h3: "(1::int) \<noteq> 2" by simp
  from removeEdge_removes_one_entry [OF h1 h2 h3]
  have "\<exists>g'. removeEdge ?g 1 2 = Inr g'" by blast
  moreover have "removeEdge ?g 1 2 = Inr (graphOf [(''a'', [2, 1]), (''b'', []), (''c'', [])])"
    by (simp add: removeEdge_def graphOf_def areInRange_def vertexAt_def MAXVERTICES_def)
  moreover have "removeEdge (graphOf [(''a'', [2, 1]), (''b'', []), (''c'', [])]) 2 1
     = Inr (graphOf [(''a'', [2, 1]), (''b'', []), (''c'', [])])"
    by (simp add: removeEdge_def graphOf_def areInRange_def vertexAt_def MAXVERTICES_def)
  ultimately show ?thesis using h1 h2 h3 by blast
qed

text \<open>
  C9. For a graph whose vertices in use lie within the array and any pair \<open>(a, b)\<close>,
  \<open>insertEdge(a, b)\<close> signals no error and leaves the size, every label and every
  slot other than \<open>a - 1\<close> as they were; in particular the slot \<open>b - 1\<close> is
  unchanged, so no edge \<open>(b, a)\<close> is added.
\<close>

theorem insertEdge_changes_only_source:
  assumes "size_g g \<le> int (length (vertices g))"
  shows "\<exists>g'. insertEdge g a b = Inr g' \<and>
           size_g g' = size_g g \<and>
           map data (vertices g') = map data (vertices g) \<and>
           (\<forall>i. i \<noteq> a - 1 \<longrightarrow> vertexAt g' i = vertexAt g i) \<and>
           vertexAt g' (b - 1) = vertexAt g (b - 1)"
proof (cases "a \<noteq> b \<and> areInRange g (a - 1) (b - 1)")
  case False
  then have "insertEdge g a b = Inr g" by (intro insertEdge_no_op) blast
  then show ?thesis by simp
next
  case True
  then have r: "0 \<le> a - 1" "a - 1 < size_g g" and ne: "b - 1 \<noteq> a - 1"
    by (simp_all add: areInRange_def)
  define vn where "vn = vertices g ! nat (a - 1)"
  define g' where
    "g' = g\<lparr>vertices := (vertices g)[nat (a - 1) := vn\<lparr>edgeHead := edgeHead vn @ [b - 1]\<rparr>]\<rparr>"
  from vertexAt_in_range [OF assms r] have vn: "vertexAt g (a - 1) = Some vn"
    by (simp add: vn_def)
  from True have t: "a \<noteq> b" "areInRange g (a - 1) (b - 1)" by simp_all
  from insertEdge_in_range [OF t vn] have 1: "insertEdge g a b = Inr g'" by (simp add: g'_def)
  have 2: "size_g g' = size_g g" by (simp add: g'_def)
  have 3: "map data (vertices g') = map data (vertices g)"
    using map_data_update [OF vn] by (simp add: g'_def)
  have 4: "\<forall>i. i \<noteq> a - 1 \<longrightarrow> vertexAt g' i = vertexAt g i"
    using r(1) by (simp add: g'_def vertexAt_update)
  with ne have 5: "vertexAt g' (b - 1) = vertexAt g (b - 1)" by blast
  from 1 2 3 4 5 show ?thesis by blast
qed

text \<open>
  An instance: inserting \<open>(1, 2)\<close> where \<open>(2, 1)\<close> is already stored changes the
  Edge Set of vertex 0 only.
\<close>

theorem insertEdge_changes_only_source_witness:
  "size_g (graphOf [(''a'', []), (''b'', [0])])
     \<le> int (length (vertices (graphOf [(''a'', []), (''b'', [0])]))) \<and>
   insertEdge (graphOf [(''a'', []), (''b'', [0])]) 1 2 = Inr (graphOf [(''a'', [1]), (''b'', [0])])"
proof -
  let ?g = "graphOf [(''a'', []), (''b'', [0])]"
  have h1: "size_g ?g \<le> int (length (vertices ?g))"
    by (simp add: graphOf_def MAXVERTICES_def)
  from insertEdge_changes_only_source [OF h1, of 1 2]
  have "\<exists>g'. insertEdge ?g 1 2 = Inr g'" by blast
  moreover have "insertEdge ?g 1 2 = Inr (graphOf [(''a'', [1]), (''b'', [0])])"
    by (simp add: insertEdge_def graphOf_def areInRange_def vertexAt_def MAXVERTICES_def)
  ultimately show ?thesis using h1 by blast
qed

section \<open>Claims about the enumeration\<close>

text \<open>
  C1. The extension builder should add the neighbours of \<open>w\<close> that are greater than
  the anchor. The code compares with \<open>w\<close> itself. On the path 0 - 2 - 1 (edges given
  in both directions), with anchor 0 the extension is \<open>[2]\<close>; for \<open>w = 2\<close> the
  neighbour 1 is greater than the anchor but not greater than \<open>w\<close>, it is left out,
  and the connected subgraph on the three vertices is never emitted for \<open>k = 3\<close>.
\<close>

theorem getExtension_compares_with_w:
  "buildGraph [''a'', ''b'', ''c''] [(1, 3), (3, 1), (3, 2), (2, 3)]
     = Inr (graphOf [(''a'', [2]), (''b'', [2]), (''c'', [0, 1])]) \<and>
   getExtension (graphOf [(''a'', [2]), (''b'', [2]), (''c'', [0, 1])]) 0 [] = Inr [2] \<and>
   getExtension (graphOf [(''a'', [2]), (''b'', [2]), (''c'', [0, 1])]) 2 [] = Inr [] \<and>
   extendSubgraph (graphOf [(''a'', [2]), (''b'', [2]), (''c'', [0, 1])]) [0] [2] 0 3 = Inr [] \<and>
   enumerateSubgraph (graphOf [(''a'', [2]), (''b'', [2]), (''c'', [0, 1])]) 3 = Inr []"
  by code_simp

text \<open>
  C3. The anchor loop should use the roots \<open>0 .. size - 1\<close> and no other. The code
  runs while \<open>i <= size\<close>: on a graph with one vertex and \<open>k = 1\<close> the anchor step
  runs for the roots 0 and 1, and the second line printed, "2", is the subgraph started
  from the root \<open>size\<close>.
\<close>

theorem anchor_loop_reaches_size:
  "size_g (emptyGraph [''a'']) = 1 \<and>
   enumerateSubgraph (emptyGraph [''a'']) 1 = Inr [[1], [2]] \<and>
   enumerateLoop (emptyGraph [''a'']) 1 (size_g (emptyGraph [''a''])) = Inr [[2]]"
  by code_simp

text \<open>
  C4. For \<open>k = 1\<close> the enumeration should emit the \<open>size\<close> singletons. On a graph
  with two vertices the code emits three lines: the third is the root \<open>size\<close>, an
  unused slot of the array.
\<close>

theorem k1_emits_size_plus_one:
  "enumerateSubgraph (emptyGraph [''a'', ''b'']) 1 = Inr [[1], [2], [3]]"
  by code_simp

text \<open>
  C7, as stated: for \<open>k < 1\<close> or \<open>k > size\<close> the enumeration should fail with an
  error. It does not: on the graph with one vertex, \<open>k = 0\<close> and \<open>k = 2\<close> both
  return normally, having printed nothing.
\<close>

theorem no_InvalidArgument_counterexample:
  "enumerateSubgraph (emptyGraph [''a'']) 0 = Inr [] \<and>
   enumerateSubgraph (emptyGraph [''a'']) 2 = Inr []"
  by code_simp

text \<open>
  C7, amended. \<open>enumerateSubgraph\<close> does not look at \<open>k\<close> before it starts. For a
  graph whose Edge Sets hold indices of vertices in use and whose array has a slot beyond
  the last vertex, and for every \<open>k < 1\<close> or \<open>k > size\<close>, it signals no error and
  returns the lines it printed; for \<open>k = 0\<close> there are none.
\<close>

theorem enumerateSubgraph_does_not_validate_k:
  assumes "graph_ok g" and "size_g g < int (length (vertices g))"
    and "k < 1 \<or> k > size_g g"
  shows "\<exists>out. enumerateSubgraph g k = Inr out \<and> (k = 0 \<longrightarrow> out = [])"
proof -
  from enumerateLoop_total [OF assms(1,2), of 0 k]
  obtain out where o: "enumerateLoop g k 0 = Inr out" by auto
  have "k = 0 \<longrightarrow> out = []"
  proof
    assume "k = 0"
    with o have "enumerateLoop g 0 0 = Inr out" by simp
    then show "out = []" by (rule enumerateLoop_k0)
  qed
  with o show ?thesis by (simp add: enumerateSubgraph_def)
qed

text \<open>
  An instance on the triangle: \<open>k = 4 > size\<close> prints a line that names vertex 3
  twice, and \<open>k = 0\<close> prints nothing.
\<close>

theorem enumerateSubgraph_does_not_validate_k_witness:
  "graph_ok (graphOf [(''a'', [2, 1]), (''b'', [0, 2]), (''c'', [0, 1])]) \<and>
   size_g (graphOf [(''a'', [2, 1]), (''b'', [0, 2]), (''c'', [0, 1])])
     < int (length (vertices (graphOf [(''a'', [2, 1]), (''b'', [0, 2]), (''c'', [0, 1])]))) \<and>
   (4::int) > size_g (graphOf [(''a'', [2, 1]), (''b'', [0, 2]), (''c'', [0, 1])]) \<and>
   enumerateSubgraph (graphOf [(''a'', [2, 1]), (''b'', [0, 2]), (''c'', [0, 1])]) 4
     = Inr [[1, 3, 2, 3]] \<and>
   (0::int) < 1 \<and>
   enumerateSubgraph (graphOf [(''a'', [2, 1]), (''b'', [0, 2]), (''c'', [0, 1])]) 0 = Inr []"
proof -
  let ?g = "graphOf [(''a'', [2, 1]), (''b'', [0, 2]), (''c'', [0, 1])]"
  have h1: "graph_ok ?g" by code_simp
  have h2: "size_g ?g < int (length (vertices ?g))" by (simp add: graphOf_def MAXVERTICES_def)
  have h3: "(4::int) < 1 \<or> 4 > size_g ?g" by (simp add: graphOf_def)
  have h4: "(0::int) < 1 \<or> 0 > size_g ?g" by simp
  have e4: "enumerateSubgraph ?g 4 = Inr [[1, 3, 2, 3]]" by code_simp
  from enumerateSubgraph_does_not_validate_k [OF h1 h2 h4]
  have "enumerateSubgraph ?g 0 = Inr []" by auto
  with enumerateSubgraph_does_not_validate_k [OF h1 h2 h3] h1 h2 h3 e4
  show ?thesis by simp
qed

text \<open>
  The recursion of \<open>extendSubgraph\<close> is well-founded: a recursive call is made only
  while the subgraph is shorter than \<open>k\<close> and makes it longer by one, and each round of
  the while loop takes one element off the extension and puts none back (this is the
  measure of the termination proof of \<open>extendSubgraph\<close> and \<open>extendWhile\<close>). So for a
  graph whose Edge Sets hold indices of vertices in use and a valid \<open>k\<close>
  (\<open>1 \<le> k \<le> size\<close>, \<open>k\<close> a C++ \<open>int\<close>), the extend step returns its output from
  every subgraph and every extension made of vertices in use, and every line it prints
  has exactly \<open>k\<close> entries. The whole enumeration returns likewise when the array has a
  slot at index \<open>size\<close>, which the anchor loop reads.
\<close>

lemma extend_step_returns:
  assumes "graph_ok g" and "1 \<le> k" and "k \<le> size_g g" and "k < 2 ^ 31"
  shows "((\<forall>u \<in> set Vextension. 0 \<le> u \<and> u < size_g g) \<longrightarrow>
            (\<exists>out. extendSubgraph g Vsubgraph Vextension v k = Inr out \<and>
                   (\<forall>line \<in> set out. int (length line) = k))) \<and>
         (size_g g < int (length (vertices g)) \<longrightarrow>
            (\<exists>out. enumerateSubgraph g k = Inr out \<and>
                   (\<forall>line \<in> set out. int (length line) = k)))"
proof -
  from assms(2,4) have "to_size_t k = k" by (intro to_size_t_id) simp_all
  with extend_total(1) [OF assms(1), of Vextension Vsubgraph v k]
    enumerateLoop_total [OF assms(1), of 0 k]
  show ?thesis by (simp add: enumerateSubgraph_def)
qed

text \<open>
  C8. For every graph and every valid \<open>k\<close> the enumeration should run to completion.
  The extend step does return, as the lemma above shows, but the whole enumeration does
  not on every graph: on the graph with \<open>MAXVERTICES\<close> vertices, which \<open>buildGraph\<close>
  leaves after the labels, and the valid \<open>k = 3\<close>, the anchor loop goes on after the
  roots \<open>0 .. 99\<close> to the root \<open>100 = size\<close> and reads \<open>vertices[100]\<close>, outside the
  array. The enumeration ends there, in the out-of-range branch, instead of returning.
\<close>

theorem enumeration_stops_outside_full_array:
  "reachable (emptyGraph (replicate 100 ''x'')) \<and>
   size_g (emptyGraph (replicate 100 ''x'')) = 100 \<and>
   (1::int) \<le> 3 \<and> 3 \<le> size_g (emptyGraph (replicate 100 ''x'')) \<and>
   extendSubgraph (emptyGraph (replicate 100 ''x'')) [99] [] 99 3 = Inr [] \<and>
   getExtension (emptyGraph (replicate 100 ''x'')) 100 [] = Inl OutOfBounds \<and>
   enumerateSubgraph (emptyGraph (replicate 100 ''x'')) 3 = Inl OutOfBounds"
proof -
  have r: "reachable (emptyGraph (replicate 100 ''x''))"
    by (rule reachable.start) (simp add: MAXVERTICES_def)
  have s: "size_g (emptyGraph (replicate 100 ''x'')) = 100" by (simp add: emptyGraph_def)
  have e: "extendSubgraph (emptyGraph (replicate 100 ''x'')) [99] [] 99 3 = Inr [] \<and>
           getExtension (emptyGraph (replicate 100 ''x'')) 100 [] = Inl OutOfBounds \<and>
           enumerateSubgraph (emptyGraph (replicate 100 ''x'')) 3 = Inl OutOfBounds"
    by code_simp
  from r s e show ?thesis by simp
qed

text \<open>
  C10. The anchor loop calls \<open>getExtension\<close> with \<open>v = size\<close>, an index outside
  \<open>0 ..< size\<close>, on every graph. When the array has no slot at that index (the array
  is full), the lookup yields \<open>None\<close> and \<open>enumerateSubgraph\<close> ends in the
  out-of-range branch of \<open>getExtension\<close>, whatever \<open>k\<close> is. When the slot exists it
  is read as if it were a vertex: for \<open>k = 1\<close> the lines printed are those of the
  roots \<open>0 .. size\<close>, the last one for the root \<open>size\<close>.
\<close>

theorem anchor_loop_reads_slot_size:
  assumes "graph_ok g"
  shows "(vertexAt g (size_g g) = None \<longrightarrow> enumerateSubgraph g k = Inl OutOfBounds) \<and>
         (vertexAt g (size_g g) \<noteq> None \<longrightarrow>
            enumerateSubgraph g 1 = Inr (map (\<lambda>j. [j + 1]) [0 .. size_g g]))"
proof (intro conjI impI)
  from assms have s: "0 \<le> size_g g" by (simp add: graph_ok_def)
  {
    assume "vertexAt g (size_g g) = None"
    from enumerateLoop_full [where i = 0 and k = k, OF assms this order_refl s]
    show "enumerateSubgraph g k = Inl OutOfBounds" by (simp add: enumerateSubgraph_def)
  next
    assume "vertexAt g (size_g g) \<noteq> None"
    then have "size_g g < int (length (vertices g))" by (simp add: vertexAt_def split: if_splits)
    from enumerateLoop_k1 [OF assms this, of 0]
    show "enumerateSubgraph g 1 = Inr (map (\<lambda>j. [j + 1]) [0 .. size_g g])"
      by (simp add: enumerateSubgraph_def)
  }
qed

text \<open>
  An instance of each case: the graph with \<open>MAXVERTICES\<close> vertices, and a graph with
  two vertices, where the slot read is the untouched slot 2.
\<close>

theorem anchor_loop_reads_slot_size_witness:
  "graph_ok (emptyGraph (replicate 100 ''v'')) \<and>
   vertexAt (emptyGraph (replicate 100 ''v'')) (size_g (emptyGraph (replicate 100 ''v''))) = None \<and>
   enumerateSubgraph (emptyGraph (replicate 100 ''v'')) 2 = Inl OutOfBounds \<and>
   graph_ok (graphOf [(''a'', [1]), (''b'', [0])]) \<and>
   vertexAt (graphOf [(''a'', [1]), (''b'', [0])]) (size_g (graphOf [(''a'', [1]), (''b'', [0])]))
     = Some defaultVertexNode \<and>
   enumerateSubgraph (graphOf [(''a'', [1]), (''b'', [0])]) 1 = Inr [[1], [2], [3]]"
proof -
  let ?f = "emptyGraph (replicate 100 ''v'')" and ?g = "graphOf [(''a'', [1]), (''b'', [0])]"
  have f1: "graph_ok ?f" by (simp add: graph_ok_def emptyGraph_def MAXVERTICES_def)
  have f2: "vertexAt ?f (size_g ?f) = None" by (simp add: vertexAt_def emptyGraph_def MAXVERTICES_def)
  have g1: "graph_ok ?g" by code_simp
  have g2: "vertexAt ?g (size_g ?g) = Some defaultVertexNode"
    by (simp add: vertexAt_def graphOf_def MAXVERTICES_def)
  have u: "[0 .. size_g ?g] = [0, 1, 2]" by (simp add: graphOf_def upto.simps)
  from anchor_loop_reads_slot_size [OF f1, of 2] anchor_loop_reads_slot_size [OF g1] f1 f2 g1 g2 u
  show ?thesis by simp
qed

end
